theory Spec2Isabelle
  imports Main "HOL-Library.Word"
begin

unbundle bit_operations_syntax

section \<open>Data model of rs485multiSerial.ino\<close>

text \<open>
  An Arduino \<^verbatim>\<open>byte\<close> is an unsigned 8-bit value. A \<^verbatim>\<open>byte *\<close> argument or a local
  array is modelled as the memory it points to: a total function from the (signed) C index
  to the byte stored there. Cells that the code never wrote keep whatever the function held
  before, which is how an uninitialised local array behaves on the target.
\<close>

type_synonym byte = "8 word"
type_synonym buffer = "int \<Rightarrow> byte"

definition ACK :: byte where "ACK = 6"          \<comment> \<open>\<^verbatim>\<open>B00000110\<close>\<close>
definition NAK :: byte where "NAK = 21"         \<comment> \<open>\<^verbatim>\<open>B00010101\<close>\<close>
definition END :: byte where "END = 119"        \<comment> \<open>\<^verbatim>\<open>B1110111\<close>\<close>
definition START :: byte where "START = 85"     \<comment> \<open>\<^verbatim>\<open>B01010101\<close>\<close>
definition MAXBYTES :: int where "MAXBYTES = 32"
definition BAUDRATE :: nat where "BAUDRATE = 57600"

definition readWriteDelay :: nat where
  "readWriteDelay = 200000 div (BAUDRATE div 100)"

definition dataLength :: byte where
  "dataLength = word_of_int ((2 * MAXBYTES) + 3)"

definition sendReceiveTimeout :: nat where
  "sendReceiveTimeout = (unat dataLength * 3) * (100000 div BAUDRATE)"

definition PORT1 :: byte where "PORT1 = 1"
definition PORT2 :: byte where "PORT2 = 2"
definition PORT1_ENABLE :: nat where "PORT1_ENABLE = 7"
definition PORT2_ENABLE :: nat where "PORT2_ENABLE = 8"
definition SEND_MODE :: bool where "SEND_MODE = True"        \<comment> \<open>\<^verbatim>\<open>HIGH\<close>\<close>
definition RECEIVE_MODE :: bool where "RECEIVE_MODE = False" \<comment> \<open>\<^verbatim>\<open>LOW\<close>\<close>

text \<open>A list laid out in memory from index 0, over a background \<open>bg\<close>; and the first \<open>n\<close>
  cells of a buffer read back as a list.\<close>

definition load :: "byte list \<Rightarrow> buffer \<Rightarrow> buffer" where
  "load xs bg = (\<lambda>i. if 0 \<le> i \<and> i < int (length xs) then xs ! nat i else bg i)"

definition dump :: "buffer \<Rightarrow> nat \<Rightarrow> byte list" where
  "dump b n = map (\<lambda>k. b (int k)) [0..<n]"

text \<open>C's integer division truncates towards zero.\<close>

definition c_div :: "int \<Rightarrow> int \<Rightarrow> int" where
  "c_div a b = sgn a * sgn b * (\<bar>a\<bar> div \<bar>b\<bar>)"

section \<open>Frame construction in sendData (lines 198-207)\<close>

text \<open>The loop \<^verbatim>\<open>for (int i = 0; i < numBytes; i++)\<close> storing each data byte and its
  complement.\<close>

function sendData_pairs :: "buffer \<Rightarrow> int \<Rightarrow> int \<Rightarrow> buffer \<Rightarrow> buffer" where
  "sendData_pairs data numBytes i tempData =
     (if i < numBytes
      then sendData_pairs data numBytes (i + 1)
             (tempData((2 * i) + 1 := data i, (2 * i) + 2 := NOT (data i)))
      else tempData)"
  by pat_completeness auto
termination
  by (relation "measure (\<lambda>(data, numBytes, i, tempData). nat (numBytes - i))") auto

declare sendData_pairs.simps [simp del]

text \<open>\<^verbatim>\<open>byte numDataBytes = 3 + (2 * numBytes)\<close> truncates to 8 bits; \<open>stack\<close> is the
  content of the local array \<^verbatim>\<open>tempData\<close> before it is filled.\<close>

definition sendData_numDataBytes :: "int \<Rightarrow> byte" where
  "sendData_numDataBytes numBytes = word_of_int (3 + (2 * numBytes))"

definition sendData_frame :: "buffer \<Rightarrow> buffer \<Rightarrow> int \<Rightarrow> buffer" where
  "sendData_frame stack data numBytes =
     (let numDataBytes = sendData_numDataBytes numBytes;
          t0 = stack(0 := START);
          t1 = t0(uint numDataBytes - 1 := END);
          t2 = t1(uint numDataBytes - 2 := END)
      in sendData_pairs data numBytes 0 t2)"

section \<open>Payload extraction in receiveData (lines 279-280)\<close>

text \<open>The loop \<^verbatim>\<open>for (int i = 0; i < count - 2; i++) data[i + 1] = tempData[(2 * i) + 1]\<close>;
  \<^verbatim>\<open>count\<close> is promoted to \<^verbatim>\<open>int\<close> in the bound.\<close>

function receiveData_copy :: "byte \<Rightarrow> buffer \<Rightarrow> int \<Rightarrow> buffer \<Rightarrow> buffer" where
  "receiveData_copy count tempData i data =
     (if i < uint count - 2
      then receiveData_copy count tempData (i + 1) (data(i + 1 := tempData ((2 * i) + 1)))
      else data)"
  by pat_completeness auto
termination
  by (relation "measure (\<lambda>(count, tempData, i, data). nat (uint count - 2 - i))") auto

declare receiveData_copy.simps [simp del]

definition receiveData_extract :: "buffer \<Rightarrow> byte \<Rightarrow> buffer \<Rightarrow> buffer" where
  "receiveData_extract data count tempData =
     receiveData_copy count tempData 0
       (data(0 := word_of_int (c_div (uint count - 2) 2)))"

section \<open>verifyData (lines 384-419)\<close>

text \<open>
  The test of the loop is written
  \<^verbatim>\<open>data1[i] & data1[i + 1] != 0 && data2[i] & data2[i + 1] != 0 && data1[i] != data2[i]\<close>.
  In C, \<^verbatim>\<open>!=\<close> binds tighter than \<^verbatim>\<open>&\<close>, which binds tighter than \<^verbatim>\<open>&&\<close>: each of the
  first two conjuncts is the data byte ANDed with the 0/1 result of comparing its neighbour
  with zero.
\<close>

definition verifyData_and :: "byte \<Rightarrow> byte \<Rightarrow> bool" where
  "verifyData_and d e = ((d AND (if e \<noteq> 0 then 1 else 0)) \<noteq> 0)"

function verifyData_loop :: "buffer \<Rightarrow> buffer \<Rightarrow> byte \<Rightarrow> int \<Rightarrow> bool" where
  "verifyData_loop data1 data2 numDataBytes i =
     (if i < uint numDataBytes - 1
      then (if verifyData_and (data1 i) (data1 (i + 1))
               \<and> verifyData_and (data2 i) (data2 (i + 1))
               \<and> data1 i \<noteq> data2 i
            then False
            else verifyData_loop data1 data2 numDataBytes (i + 2))
      else True)"
  by pat_completeness auto
termination
  by (relation "measure (\<lambda>(data1, data2, numDataBytes, i). nat (uint numDataBytes - 1 - i))")
    auto

declare verifyData_loop.simps [simp del]

definition verifyData :: "buffer \<Rightarrow> buffer \<Rightarrow> byte \<Rightarrow> bool" where
  "verifyData data1 data2 numDataBytes =
     (if \<not> (data1 0 = START \<and> data2 0 = START) then False
      else if \<not> (data1 (uint numDataBytes - 1) = END \<and> data2 (uint numDataBytes - 1) = END)
      then False
      else verifyData_loop data1 data2 numDataBytes 1)"

section \<open>The ports and the clock\<close>

text \<open>
  Modelled from the spec: the SoftwareSerial library and the Arduino core (\<^verbatim>\<open>millis\<close>,
  \<^verbatim>\<open>delay\<close>, \<^verbatim>\<open>digitalWrite\<close>) are outside the repository; section 6 of the specification
  gives the port capability the program consumes (byte available, read next byte, write byte,
  flush, set direction). The world holds the microsecond clock, the level of the two enable
  pins, the bytes on their way into each port (each with the time from which it can be read)
  and the bytes written to each port so far. Time is charged to \<^verbatim>\<open>millis\<close>, to every poll,
  read and write of a port, and to the delays; the diagnostic output on \<^verbatim>\<open>Serial\<close> is left
  out.
\<close>

datatype serial = Port1 | Port2

record world =
  clock :: nat
  enable1 :: bool
  enable2 :: bool
  rx1 :: "(nat \<times> byte) list"
  rx2 :: "(nat \<times> byte) list"
  tx1 :: "byte list"
  tx2 :: "byte list"

definition elapse :: "nat \<Rightarrow> world \<Rightarrow> world" where
  "elapse n w = w\<lparr>clock := clock w + n\<rparr>"

definition millis :: "world \<Rightarrow> nat \<times> world" where
  "millis w = (clock w div 1000, elapse 1 w)"

definition delayMicroseconds :: "nat \<Rightarrow> world \<Rightarrow> world" where
  "delayMicroseconds n w = elapse n w"

definition delay :: "nat \<Rightarrow> world \<Rightarrow> world" where
  "delay ms w = elapse (1000 * ms) w"

definition digitalWrite :: "nat \<Rightarrow> bool \<Rightarrow> world \<Rightarrow> world" where
  "digitalWrite pin level w =
     (if pin = PORT1_ENABLE then w\<lparr>enable1 := level\<rparr>
      else if pin = PORT2_ENABLE then w\<lparr>enable2 := level\<rparr>
      else w)"

fun rx_of :: "serial \<Rightarrow> world \<Rightarrow> (nat \<times> byte) list" where
  "rx_of Port1 w = rx1 w"
| "rx_of Port2 w = rx2 w"

fun rx_update :: "serial \<Rightarrow> (nat \<times> byte) list \<Rightarrow> world \<Rightarrow> world" where
  "rx_update Port1 q w = w\<lparr>rx1 := q\<rparr>"
| "rx_update Port2 q w = w\<lparr>rx2 := q\<rparr>"

fun tx_of :: "serial \<Rightarrow> world \<Rightarrow> byte list" where
  "tx_of Port1 w = tx1 w"
| "tx_of Port2 w = tx2 w"

fun tx_update :: "serial \<Rightarrow> byte list \<Rightarrow> world \<Rightarrow> world" where
  "tx_update Port1 q w = w\<lparr>tx1 := q\<rparr>"
| "tx_update Port2 q w = w\<lparr>tx2 := q\<rparr>"

definition listen :: "serial \<Rightarrow> world \<Rightarrow> world" where
  "listen s w = w"

definition flush :: "serial \<Rightarrow> world \<Rightarrow> world" where
  "flush s w = w"

definition available :: "serial \<Rightarrow> world \<Rightarrow> bool \<times> world" where
  "available s w =
     ((case rx_of s w of [] \<Rightarrow> False | (t, b) # rest \<Rightarrow> t \<le> clock w), elapse 1 w)"

text \<open>The library's \<^verbatim>\<open>read()\<close> yields -1 when nothing is buffered, 255 once stored in a
  byte; the program only reads after \<^verbatim>\<open>available()\<close>.\<close>

definition serial_read :: "serial \<Rightarrow> world \<Rightarrow> byte \<times> world" where
  "serial_read s w =
     (case rx_of s w of
        [] \<Rightarrow> (255, elapse 1 w)
      | (t, b) # rest \<Rightarrow>
          if t \<le> clock w then (b, rx_update s rest (elapse 1 w)) else (255, elapse 1 w))"

text \<open>One character of ten bit times at the configured baud rate.\<close>

definition serial_write :: "serial \<Rightarrow> byte \<Rightarrow> world \<Rightarrow> world" where
  "serial_write s b w = elapse (10000000 div BAUDRATE) (tx_update s (tx_of s w @ [b]) w)"

section \<open>sendBuffer, sendByte, readByte, checkPortHasData\<close>

function sendBuffer_loop :: "serial \<Rightarrow> buffer \<Rightarrow> byte \<Rightarrow> int \<Rightarrow> world \<Rightarrow> world" where
  "sendBuffer_loop s data numBytes i w =
     (if i < uint numBytes
      then sendBuffer_loop s data numBytes (i + 1)
             (delayMicroseconds (readWriteDelay div 32) (serial_write s (data i) w))
      else w)"
  by pat_completeness auto
termination
  by (relation "measure (\<lambda>(s, data, numBytes, i, w). nat (uint numBytes - i))") auto

declare sendBuffer_loop.simps [simp del]

definition sendBuffer :: "buffer \<Rightarrow> byte \<Rightarrow> byte \<Rightarrow> world \<Rightarrow> world" where
  "sendBuffer data numBytes port w =
     (if port = PORT1 then
        (let w1 = digitalWrite PORT1_ENABLE SEND_MODE w;
             w2 = sendBuffer_loop Port1 data numBytes 0 w1;
             w3 = delayMicroseconds readWriteDelay w2;
             w4 = flush Port1 w3
         in digitalWrite PORT1_ENABLE RECEIVE_MODE w4)
      else if port = PORT2 then
        (let w1 = digitalWrite PORT2_ENABLE SEND_MODE w;
             w2 = sendBuffer_loop Port2 data numBytes 0 w1;
             w3 = delayMicroseconds readWriteDelay w2;
             w4 = flush Port2 w3
         in digitalWrite PORT2_ENABLE RECEIVE_MODE w4)
      else w)"

definition sendByte :: "byte \<Rightarrow> byte \<Rightarrow> world \<Rightarrow> world" where
  "sendByte temp port w =
     (if port = PORT1 then
        (let w1 = digitalWrite PORT1_ENABLE SEND_MODE w;
             w2 = serial_write Port1 temp w1;
             w3 = flush Port1 w2
         in digitalWrite PORT1_ENABLE RECEIVE_MODE w3)
      else if port = PORT2 then
        (let w1 = digitalWrite PORT2_ENABLE SEND_MODE w;
             w2 = serial_write Port2 temp w1;
             w3 = flush Port2 w2
         in digitalWrite PORT2_ENABLE RECEIVE_MODE w3)
      else w)"

definition readByte :: "byte \<Rightarrow> world \<Rightarrow> byte \<times> world" where
  "readByte port w =
     (if port = PORT1 then
        (case available Port1 (listen Port1 w) of
           (a, w1) \<Rightarrow> if a then serial_read Port1 w1 else (0, w1))
      else if port = PORT2 then
        (case available Port2 (listen Port2 w) of
           (a, w1) \<Rightarrow> if a then serial_read Port2 w1 else (0, w1))
      else (0, w))"

text \<open>
  \<^verbatim>\<open>checkPortHasData\<close> has one return statement per port, \<^verbatim>\<open>return true\<close> under
  \<^verbatim>\<open>if (available())\<close>. On every other path control reaches the closing brace of the
  function without a return statement: that outcome is \<open>None\<close>.
\<close>

definition checkPortHasData :: "byte \<Rightarrow> world \<Rightarrow> bool option \<times> world" where
  "checkPortHasData port w =
     (if port = PORT1 then
        (case available Port1 (listen Port1 (digitalWrite PORT1_ENABLE RECEIVE_MODE w)) of
           (a, w1) \<Rightarrow> (if a then Some True else None, w1))
      else if port = PORT2 then
        (case available Port2 (listen Port2 (digitalWrite PORT2_ENABLE RECEIVE_MODE w)) of
           (a, w1) \<Rightarrow> (if a then Some True else None, w1))
      else (None, w))"

text \<open>
  What a caller's \<^verbatim>\<open>if (checkPortHasData(port))\<close> takes the call to have answered. The
  language leaves the value open when no return statement ran; the callers below are read
  the way the program relies on, with that case counting as false.
\<close>

definition observed :: "bool option \<Rightarrow> bool" where
  "observed r = (r = Some True)"

section \<open>readBuffer (lines 300-355)\<close>

text \<open>
  The innermost loop, \<^verbatim>\<open>while (count < maxDataLength + 1 && endMode)\<close>, written twice in the
  source, once per port. It has no exit other than its own condition, so it is a partial
  function: \<open>None\<close> stands for a loop that never ends.
\<close>

partial_function (option) readBuffer_fill ::
  "serial \<Rightarrow> byte \<Rightarrow> buffer \<Rightarrow> byte \<Rightarrow> bool \<Rightarrow> world \<Rightarrow> (buffer \<times> byte \<times> world) option"
where
  "readBuffer_fill s maxDataLength tempData count endMode w =
     (if uint count < uint maxDataLength + 1 \<and> endMode then
        (case available s w of
           (a, w1) \<Rightarrow>
             (case (if a then (case serial_read s w1 of
                                 (b, w2) \<Rightarrow> (tempData(uint count := b), count + 1, w2))
                    else (tempData, count, w1)) of
                (tempData', count', w') \<Rightarrow>
                  readBuffer_fill s maxDataLength tempData' count'
                    (if count' > 1 \<and> tempData' (uint count' - 2) = END
                        \<and> tempData' (uint count' - 1) = END
                     then False else endMode)
                    w'))
      else Some (tempData, count, w))"

declare readBuffer_fill.simps [code]

text \<open>The framing checks after the accumulation (lines 331-349); \<^verbatim>\<open>||\<close> evaluates its
  second operand only when the first is false.\<close>

definition readBuffer_check :: "buffer \<Rightarrow> byte \<Rightarrow> byte" where
  "readBuffer_check tempData count =
     (if tempData 0 \<noteq> START then 0
      else if tempData (uint count - 1) \<noteq> END \<or> tempData (uint count - 2) \<noteq> END then 0
      else count)"

text \<open>
  The outer \<^verbatim>\<open>while (timeOut + sendReceiveTimeout > millis())\<close>. Every path through the body
  of \<^verbatim>\<open>while (count < maxDataLength)\<close> returns, so that loop runs its body at most once.
  The result is the returned count, the buffer as the call leaves it, and the world.
\<close>

function readBuffer_poll ::
  "nat \<Rightarrow> buffer \<Rightarrow> byte \<Rightarrow> byte \<Rightarrow> byte \<Rightarrow> world \<Rightarrow> (byte \<times> buffer \<times> world) option"
where
  "readBuffer_poll deadline tempData maxDataLength port count w =
     (case millis w of
        (now, w0) \<Rightarrow>
          if deadline > now then
            (case checkPortHasData port w0 of
               (r, w1) \<Rightarrow>
                 if observed r then
                   (if count < maxDataLength then
                      (case (if port = PORT1
                             then readBuffer_fill Port1 maxDataLength tempData count True w1
                             else if port = PORT2
                             then readBuffer_fill Port2 maxDataLength tempData count True w1
                             else Some (tempData, count, w1)) of
                         None \<Rightarrow> None
                       | Some (tempData', count', w2) \<Rightarrow>
                           Some (readBuffer_check tempData' count', tempData', w2))
                    else readBuffer_poll deadline tempData maxDataLength port count w1)
                 else Some (0, tempData, w1))
          else Some (0, tempData, w0))"
  by pat_completeness auto
termination
  by (relation "measure (\<lambda>(deadline, tempData, maxDataLength, port, count, w).
                  deadline * 1000 - clock w)")
     (auto simp: millis_def checkPortHasData_def available_def elapse_def listen_def
        digitalWrite_def observed_def split: if_splits)

declare readBuffer_poll.simps [simp del]

definition readBuffer :: "buffer \<Rightarrow> byte \<Rightarrow> byte \<Rightarrow> world \<Rightarrow> (byte \<times> buffer \<times> world) option"
where
  "readBuffer tempData maxDataLength port w =
     (case millis w of
        (timeOut, w0) \<Rightarrow>
          readBuffer_poll (timeOut + sendReceiveTimeout) tempData maxDataLength port 0 w0)"

section \<open>sendData (lines 194-234)\<close>

text \<open>
  The verification loop \<^verbatim>\<open>while (timeOut + sendReceiveTimeout > millis())\<close>. The array
  \<^verbatim>\<open>testData\<close> is declared afresh in each round; \<open>stack\<close> is what it holds before
  \<^verbatim>\<open>readBuffer\<close> fills it.
\<close>

function sendData_await ::
  "nat \<Rightarrow> buffer \<Rightarrow> buffer \<Rightarrow> byte \<Rightarrow> byte \<Rightarrow> world \<Rightarrow> (bool \<times> world) option"
where
  "sendData_await deadline stack tempData numDataBytes port w =
     (case millis w of
        (now, w0) \<Rightarrow>
          if deadline > now then
            (case checkPortHasData port w0 of
               (r, w1) \<Rightarrow>
                 if observed r then
                   (case readBuffer stack numDataBytes port w1 of
                      None \<Rightarrow> None
                    | Some (count, testData, w2) \<Rightarrow>
                        if count > 0 \<and> verifyData tempData testData numDataBytes
                        then Some (True, delayMicroseconds readWriteDelay (sendByte ACK port w2))
                        else Some (False, sendByte NAK port w2))
                 else sendData_await deadline stack tempData numDataBytes port w1)
          else Some (False, w0))"
  by pat_completeness auto
termination
  by (relation "measure (\<lambda>(deadline, stack, tempData, numDataBytes, port, w).
                  deadline * 1000 - clock w)")
     (auto simp: millis_def checkPortHasData_def available_def elapse_def listen_def
        digitalWrite_def observed_def split: if_splits)

declare sendData_await.simps [simp del]

text \<open>\<^verbatim>\<open>numBytes\<close> is a C \<^verbatim>\<open>int\<close>; \<open>stack\<close> is the prior content of the local arrays.\<close>

definition sendData :: "buffer \<Rightarrow> buffer \<Rightarrow> int \<Rightarrow> byte \<Rightarrow> world \<Rightarrow> (bool \<times> world) option"
where
  "sendData stack data numBytes port w =
     (if numBytes \<le> 0 then Some (False, w)
      else
        (let numDataBytes = sendData_numDataBytes numBytes;
             tempData = sendData_frame stack data numBytes;
             w1 = sendBuffer tempData numDataBytes port w
         in case millis w1 of
              (timeOut, w2) \<Rightarrow>
                sendData_await (timeOut + sendReceiveTimeout) stack tempData numDataBytes
                  port w2))"

section \<open>receiveData (lines 245-296)\<close>

text \<open>The response loop \<^verbatim>\<open>while (timeout + sendReceiveTimeout > millis())\<close>: a round that
  finds no data, or reads the byte 0, goes round again.\<close>

function receiveData_await ::
  "nat \<Rightarrow> buffer \<Rightarrow> buffer \<Rightarrow> byte \<Rightarrow> byte \<Rightarrow> world \<Rightarrow> bool \<times> buffer \<times> world"
where
  "receiveData_await deadline data tempData count port w =
     (case millis w of
        (now, w0) \<Rightarrow>
          if deadline > now then
            (case checkPortHasData port w0 of
               (r, w1) \<Rightarrow>
                 if observed r then
                   (case readByte port w1 of
                      (response, w2) \<Rightarrow>
                        if response > 0 then
                          (if response = ACK
                           then (True, receiveData_extract data count tempData, w2)
                           else if response = NAK then (False, data, w2)
                           else (False, data, w2))
                        else receiveData_await deadline data tempData count port w2)
                 else receiveData_await deadline data tempData count port w1)
          else (False, data, w0))"
  by pat_completeness auto
termination
  by (relation "measure (\<lambda>(deadline, data, tempData, count, port, w).
                  deadline * 1000 - clock w)")
     (auto simp: millis_def checkPortHasData_def readByte_def serial_read_def available_def
        elapse_def listen_def digitalWrite_def observed_def
        split: if_splits list.splits prod.splits serial.splits)

declare receiveData_await.simps [simp del]

text \<open>The result is the returned boolean, the caller's array \<^verbatim>\<open>data\<close> as the call leaves
  it, and the world; \<open>stack\<close> is the prior content of the local array \<^verbatim>\<open>tempData\<close>.\<close>

definition receiveData ::
  "buffer \<Rightarrow> buffer \<Rightarrow> byte \<Rightarrow> byte \<Rightarrow> world \<Rightarrow> (bool \<times> buffer \<times> world) option"
where
  "receiveData stack data maxDataLength port w =
     (case checkPortHasData port w of
        (r, w1) \<Rightarrow>
          if observed r then
            (case readBuffer stack maxDataLength port w1 of
               None \<Rightarrow> None
             | Some (count, tempData, w2) \<Rightarrow>
                 if count > 0 then
                   (let w3 = sendBuffer tempData count port w2;
                        w4 = delay 1 w3
                    in case millis w4 of
                         (timeout, w5) \<Rightarrow>
                           Some (receiveData_await (timeout + sendReceiveTimeout) data
                                   tempData count port w5))
                 else Some (False, data, w2))
          else Some (False, data, w1))"

section \<open>Notions of the specification\<close>

text \<open>The wire frame of a payload as section 3 of the specification lays it out:
  \<^verbatim>\<open>[START][d0][~d0]...[d(n-1)][~d(n-1)][END][END]\<close>.\<close>

definition frame_of :: "byte list \<Rightarrow> byte list" where
  "frame_of p = START # concat (map (\<lambda>d. [d, NOT d]) p) @ [END, END]"

text \<open>What a caller of \<^verbatim>\<open>receiveData\<close> reads from its array: \<^verbatim>\<open>data[0]\<close> is the number of
  payload bytes, which follow from \<^verbatim>\<open>data[1]\<close> on.\<close>

definition received_payload :: "buffer \<Rightarrow> byte list" where
  "received_payload data = map (\<lambda>k. data (1 + int k)) [0..<unat (data 0)]"

text \<open>The framing test of section 4.1 of the specification: the first byte is START and the
  last two of the \<open>len\<close> bytes are END.\<close>

definition validateFraming :: "buffer \<Rightarrow> int \<Rightarrow> bool" where
  "validateFraming buf len \<longleftrightarrow>
     buf 0 = START \<and> buf (len - 1) = END \<and> buf (len - 2) = END"


text \<open>Which serial object a port number selects, and the enable line that goes with it.\<close>

definition serves :: "byte \<Rightarrow> serial \<Rightarrow> bool" where
  "serves port s \<longleftrightarrow> port = PORT1 \<and> s = Port1 \<or> port = PORT2 \<and> s = Port2"

fun enable_of :: "serial \<Rightarrow> world \<Rightarrow> bool" where
  "enable_of Port1 w = enable1 w"
| "enable_of Port2 w = enable2 w"


text \<open>Two relations between the world before and after a call: \<open>silent\<close> when nothing was
  written to either port, \<open>settled\<close> when each enable line is as it was or in receive mode.\<close>

definition silent :: "world \<Rightarrow> world \<Rightarrow> bool" where
  "silent w w' \<longleftrightarrow> tx1 w' = tx1 w \<and> tx2 w' = tx2 w"

definition settled :: "world \<Rightarrow> world \<Rightarrow> bool" where
  "settled w w' \<longleftrightarrow>
     (enable1 w' = enable1 w \<or> enable1 w' = RECEIVE_MODE)
     \<and> (enable2 w' = enable2 w \<or> enable2 w' = RECEIVE_MODE)"


text \<open>A state of the innermost loop of \<^verbatim>\<open>readBuffer\<close> in which nothing is left to arrive, the
  loop condition holds and the last two bytes read are not both END.\<close>

definition stalled :: "serial \<Rightarrow> byte \<Rightarrow> buffer \<Rightarrow> byte \<Rightarrow> bool \<Rightarrow> world \<Rightarrow> bool" where
  "stalled s m tempData count endMode w \<longleftrightarrow>
     rx_of s w = [] \<and> endMode \<and> uint count < uint m + 1
     \<and> \<not> (count > 1 \<and> tempData (uint count - 2) = END \<and> tempData (uint count - 1) = END)"


section \<open>Concrete worlds\<close>

text \<open>The world that \<^verbatim>\<open>setup()\<close> leaves: both lines in receive mode, nothing received or
  sent; \<open>incoming\<close> queues bytes that are readable from time 0 on.\<close>

definition idle :: world where
  "idle = \<lparr>clock = 0, enable1 = RECEIVE_MODE, enable2 = RECEIVE_MODE,
            rx1 = [], rx2 = [], tx1 = [], tx2 = []\<rparr>"

definition incoming :: "byte list \<Rightarrow> (nat \<times> byte) list" where
  "incoming bs = map (\<lambda>b. (0, b)) bs"

definition zeros :: buffer where
  "zeros = (\<lambda>_. 0)"

definition payload33 :: "byte list" where
  "payload33 = map of_nat [0..<33]"


text \<open>Scenario B of the specification on the receiving side: the frame of \<open>[1, 2, 3]\<close> arrives,
  followed by the sender's ACK.\<close>

definition scenarioB :: world where
  "scenarioB = idle\<lparr>rx1 := incoming (frame_of [1, 2, 3] @ [ACK])\<rparr>"


text \<open>A peer that answers with two END bytes only; \<open>echo_poll\<close> is the world in which
  \<^verbatim>\<open>sendData\<close>, having sent the frame of \<open>[5]\<close> to that peer, polls the port for the first
  time. In \<open>keyed\<close> the enable line of port 1 starts in transmit mode.\<close>

definition garbled :: world where
  "garbled = idle\<lparr>rx1 := incoming [END, END]\<rparr>"

definition echo_poll :: world where
  "echo_poll = snd (millis (snd (millis
      (sendBuffer (sendData_frame zeros (load [5] zeros) 1) (sendData_numDataBytes 1) PORT1
         (idle\<lparr>rx1 := incoming [END, END]\<rparr>)))))"

definition keyed :: world where
  "keyed = idle\<lparr>enable1 := SEND_MODE, rx1 := incoming (frame_of [1, 2, 3] @ [ACK])\<rparr>"


section \<open>Evaluation\<close>

lemmas constant_defs = ACK_def NAK_def END_def START_def MAXBYTES_def BAUDRATE_def
  readWriteDelay_def dataLength_def sendReceiveTimeout_def PORT1_def PORT2_def
  PORT1_ENABLE_def PORT2_ENABLE_def SEND_MODE_def RECEIVE_MODE_def

lemmas port_defs = elapse_def millis_def delayMicroseconds_def delay_def digitalWrite_def
  listen_def flush_def available_def serial_read_def serial_write_def

lemmas program_defs = sendBuffer_def sendByte_def readByte_def checkPortHasData_def observed_def
  readBuffer_check_def readBuffer_def sendData_def receiveData_def sendData_numDataBytes_def
  sendData_frame_def receiveData_extract_def verifyData_def verifyData_and_def c_div_def

lemmas loop_simps = sendBuffer_loop.simps readBuffer_poll.simps sendData_await.simps
  receiveData_await.simps sendData_pairs.simps receiveData_copy.simps verifyData_loop.simps

lemmas run_simps = idle_def incoming_def frame_of_def load_def zeros_def
  readBuffer_fill.simps constant_defs port_defs program_defs loop_simps

section \<open>The frame codec\<close>

subsection \<open>Closed forms of the two loops\<close>

lemma sendData_pairs_at:
  "0 \<le> i \<Longrightarrow> sendData_pairs data numBytes i tempData k =
     (if 2 * i + 1 \<le> k \<and> k \<le> 2 * numBytes
      then (if odd k then data ((k - 1) div 2) else NOT (data ((k - 2) div 2)))
      else tempData k)"
proof (induction data numBytes i tempData rule: sendData_pairs.induct)
  case (1 data numBytes i tempData)
  show ?case
  proof (cases "i < numBytes")
    case True
    have step: "sendData_pairs data numBytes i tempData =
        sendData_pairs data numBytes (i + 1)
          (tempData((2 * i) + 1 := data i, (2 * i) + 2 := NOT (data i)))"
      using True by (subst sendData_pairs.simps) simp
    have ih: "sendData_pairs data numBytes (i + 1)
          (tempData((2 * i) + 1 := data i, (2 * i) + 2 := NOT (data i))) k =
       (if 2 * (i + 1) + 1 \<le> k \<and> k \<le> 2 * numBytes
        then (if odd k then data ((k - 1) div 2) else NOT (data ((k - 2) div 2)))
        else (tempData((2 * i) + 1 := data i, (2 * i) + 2 := NOT (data i))) k)"
    proof (rule "1.IH" [OF True])
      show "0 \<le> i + 1" using "1.prems" by simp
    qed
    show ?thesis
      unfolding step ih using True "1.prems" by auto
  next
    case False
    then show ?thesis by (subst sendData_pairs.simps) auto
  qed
qed

lemma receiveData_copy_at:
  "receiveData_copy count tempData i data k =
     (if i + 1 \<le> k \<and> k \<le> uint count - 2 then tempData (2 * (k - 1) + 1) else data k)"
proof (induction count tempData i data rule: receiveData_copy.induct)
  case (1 count tempData i data)
  show ?case
  proof (cases "i < uint count - 2")
    case True
    have step: "receiveData_copy count tempData i data =
        receiveData_copy count tempData (i + 1) (data(i + 1 := tempData ((2 * i) + 1)))"
      using True by (subst receiveData_copy.simps) simp
    show ?thesis
      unfolding step "1.IH" [OF True] using True by (auto simp: algebra_simps)
  next
    case False
    then show ?thesis by (subst receiveData_copy.simps) auto
  qed
qed

lemma length_concat_pairs: "length (concat (map (\<lambda>d. [d, f d]) p)) = 2 * length p"
  by (induction p) auto

lemma concat_pairs_nth:
  "k < 2 * length p \<Longrightarrow>
   concat (map (\<lambda>d. [d, f d]) p) ! k = (if even k then p ! (k div 2) else f (p ! (k div 2)))"
proof (induction p arbitrary: k)
  case Nil
  then show ?case by simp
next
  case (Cons a p)
  show ?case
  proof (cases k)
    case 0
    then show ?thesis by simp
  next
    case (Suc j)
    show ?thesis
    proof (cases j)
      case 0
      with Suc show ?thesis by simp
    next
      case (Suc m)
      with \<open>k = Suc j\<close> Cons.prems have "m < 2 * length p" by simp
      from Cons.IH [OF this] Suc \<open>k = Suc j\<close> show ?thesis by simp
    qed
  qed
qed

lemma numDataBytes_uint:
  "0 \<le> n \<Longrightarrow> n \<le> 126 \<Longrightarrow> uint (sendData_numDataBytes n) = 3 + 2 * n"
proof -
  assume n: "0 \<le> n" "n \<le> 126"
  have "uint (word_of_int (3 + 2 * n) :: byte) = take_bit 8 (3 + 2 * n)"
    by (subst uint_word_of_int_eq) simp
  also have "\<dots> = 3 + 2 * n"
    using n by (intro take_bit_int_eq_self) auto
  finally show ?thesis by (simp only: sendData_numDataBytes_def)
qed

lemma sendData_frame_at:
  assumes "0 \<le> n" "n \<le> 126"
  shows "sendData_frame stack data n k =
     (if k = 0 then START
      else if 1 \<le> k \<and> k \<le> 2 * n
      then (if odd k then data ((k - 1) div 2) else NOT (data ((k - 2) div 2)))
      else if k = 2 * n + 1 \<or> k = 2 * n + 2 then END
      else stack k)"
  using assms
  by (simp add: sendData_frame_def Let_def numDataBytes_uint sendData_pairs_at)

lemma frame_of_nth:
  assumes "k < 2 * length p + 3"
  shows "frame_of p ! k =
     (if k = 0 then START
      else if k \<le> 2 * length p
      then (if odd k then p ! ((k - 1) div 2) else NOT (p ! ((k - 2) div 2)))
      else END)"
proof (cases "k = 0")
  case True
  then show ?thesis by (simp add: frame_of_def)
next
  case False
  then obtain j where k: "k = Suc j" by (cases k) auto
  show ?thesis
  proof (cases "j < 2 * length p")
    case True
    have "frame_of p ! k = concat (map (\<lambda>d. [d, NOT d]) p) ! j"
      using True by (simp add: frame_of_def k nth_append length_concat_pairs)
    also have "\<dots> = (if even j then p ! (j div 2) else NOT (p ! (j div 2)))"
      by (rule concat_pairs_nth [OF True])
    finally show ?thesis using True k by (auto elim!: oddE)
  next
    case False
    with assms k have "j = 2 * length p \<or> j = 2 * length p + 1" by arith
    then show ?thesis
      by (auto simp: frame_of_def k nth_append length_concat_pairs)
  qed
qed

lemma dump_sendData_frame:
  assumes "length p \<le> 126"
  shows "dump (sendData_frame stack (load p bg) (int (length p))) (2 * length p + 3) = frame_of p"
proof (rule nth_equalityI)
  show "length (dump (sendData_frame stack (load p bg) (int (length p))) (2 * length p + 3))
        = length (frame_of p)"
    by (simp add: dump_def frame_of_def length_concat_pairs)
next
  fix k
  assume "k < length (dump (sendData_frame stack (load p bg) (int (length p))) (2 * length p + 3))"
  then have k: "k < 2 * length p + 3" by (simp add: dump_def)
  have n: "(0::int) \<le> int (length p)" "int (length p) \<le> 126" using assms by auto
  have "dump (sendData_frame stack (load p bg) (int (length p))) (2 * length p + 3) ! k
        = sendData_frame stack (load p bg) (int (length p)) (int k)"
    using k by (simp add: dump_def)
  also have "\<dots> = frame_of p ! k"
  proof (cases "1 \<le> k \<and> k \<le> 2 * length p")
    case True
    show ?thesis
    proof (cases "odd k")
      case odd: True
      then obtain m where m: "k = 2 * m + 1" by (auto elim: oddE)
      with True have "m < length p" by simp
      then show ?thesis
        unfolding sendData_frame_at [OF n] frame_of_nth [OF k]
        using True m by (simp add: load_def)
    next
      case even: False
      then obtain m where m: "k = 2 * m" by (auto elim: evenE)
      with True obtain m' where m': "m = Suc m'" by (cases m) auto
      with True m have "m' < length p" by simp
      then show ?thesis
        unfolding sendData_frame_at [OF n] frame_of_nth [OF k]
        using True m m' by (simp add: load_def)
    qed
  next
    case False
    then show ?thesis using k
      by (auto simp: sendData_frame_at [OF n] frame_of_nth [OF k])
  qed
  finally show "dump (sendData_frame stack (load p bg) (int (length p))) (2 * length p + 3) ! k
        = frame_of p ! k" .
qed

subsection \<open>Round trip\<close>

text \<open>
  Claim C1. For every payload \<open>p\<close> of 1 to \<open>MAXBYTES\<close> bytes, the frame that \<^verbatim>\<open>sendData\<close>
  builds is \<open>START\<close>, each byte followed by its complement, \<open>END\<close>, \<open>END\<close>; and when the
  receiver's buffer holds that frame in its first \<open>count\<close> cells (whatever lies beyond
  them), the extraction that \<^verbatim>\<open>receiveData\<close> performs on ACK leaves an array from which the
  caller reads back exactly \<open>p\<close>.
\<close>

theorem roundtrip:
  assumes len: "1 \<le> length p" "int (length p) \<le> MAXBYTES"
    and rx: "\<forall>i. 0 \<le> i \<and> i < uint (sendData_numDataBytes (int (length p))) \<longrightarrow>
               tempData i = sendData_frame stack (load p bg) (int (length p)) i"
  shows "dump (sendData_frame stack (load p bg) (int (length p)))
           (unat (sendData_numDataBytes (int (length p)))) = frame_of p
       \<and> received_payload
           (receiveData_extract data (sendData_numDataBytes (int (length p))) tempData) = p"
proof -
  let ?n = "int (length p)"
  let ?c = "sendData_numDataBytes ?n"
  let ?out = "receiveData_extract data ?c tempData"
  have n: "0 \<le> ?n" "?n \<le> 126" "length p \<le> 126" using len by (auto simp: MAXBYTES_def)
  have c: "uint ?c = 3 + 2 * ?n" by (rule numDataBytes_uint [OF n(1,2)])
  then have cn: "unat ?c = 2 * length p + 3" by (simp add: unat_eq_nat_uint)
  have frame: "dump (sendData_frame stack (load p bg) ?n) (unat ?c) = frame_of p"
    unfolding cn by (rule dump_sendData_frame [OF n(3)])
  have "c_div (uint ?c - 2) 2 = ?n"
    unfolding c by (simp add: c_div_def sgn_if)
  then have out0: "?out 0 = word_of_int ?n"
    by (simp add: receiveData_extract_def receiveData_copy_at)
  then have u0: "unat (?out 0) = length p"
    using n(3) by (simp add: unat_of_nat take_bit_nat_eq_self)
  have at: "?out (1 + int j) = p ! j" if "j < length p" for j
  proof -
    have "?out (1 + int j) = tempData (2 * int j + 1)"
      using that c by (simp add: receiveData_extract_def receiveData_copy_at)
    also have "\<dots> = sendData_frame stack (load p bg) ?n (2 * int j + 1)"
      using rx that c by simp
    also have "\<dots> = p ! j"
      using that by (simp add: sendData_frame_at [OF n(1,2)] load_def)
    finally show ?thesis .
  qed
  have "received_payload ?out = p"
    unfolding received_payload_def u0
    by (rule nth_equalityI) (simp_all add: at)
  with frame show ?thesis by simp
qed

theorem roundtrip_witness:
  "1 \<le> length [5::byte] \<and> int (length [5::byte]) \<le> MAXBYTES
   \<and> dump (sendData_frame (\<lambda>_. 0) (load [5] (\<lambda>_. 0)) 1) 5 = [START, 5, NOT 5, END, END]
   \<and> received_payload (receiveData_extract (\<lambda>_. 0) 5 (load [START, 5, NOT 5, END, END] (\<lambda>_. 0))) = [5]"
proof -
  have l: "1 \<le> length [5::byte]" "int (length [5::byte]) \<le> MAXBYTES"
    by (simp_all add: MAXBYTES_def)
  have c: "sendData_numDataBytes (int (length [5::byte])) = 5"
    by (simp add: sendData_numDataBytes_def)
  have f: "dump (sendData_frame (\<lambda>_. 0) (load [5] (\<lambda>_. 0)) 1) 5 = [START, 5, NOT 5, END, END]"
    by (simp add: dump_def sendData_frame_def sendData_numDataBytes_def sendData_pairs.simps load_def upt_rec Let_def)
  have rx: "\<forall>i. 0 \<le> i \<and> i < uint (sendData_numDataBytes (int (length [5::byte]))) \<longrightarrow>
      load [START, 5, NOT 5, END, END] (\<lambda>_. 0) i
        = sendData_frame (\<lambda>_. 0) (load [5] (\<lambda>_. 0)) (int (length [5::byte])) i"
    unfolding c
    by (simp add: sendData_frame_def sendData_numDataBytes_def sendData_pairs.simps load_def Let_def)
  from roundtrip [OF l rx, of "\<lambda>_. 0"] l f show ?thesis
    by (simp add: sendData_numDataBytes_def frame_of_def)
qed


section \<open>What each operation leaves unchanged\<close>

lemma silent_refl [simp]: "silent w w" by (simp add: silent_def)

lemma settled_refl [simp]: "settled w w" by (simp add: settled_def)

lemma silent_trans: "silent a b \<Longrightarrow> silent b c \<Longrightarrow> silent a c" by (simp add: silent_def)

lemma settled_trans: "settled a b \<Longrightarrow> settled b c \<Longrightarrow> settled a c" by (auto simp: settled_def)

lemma millis_quiet: "millis w = (t, w') \<Longrightarrow> silent w w' \<and> settled w w'"
  by (auto simp: millis_def elapse_def silent_def settled_def)

lemma available_quiet: "available s w = (a, w') \<Longrightarrow> silent w w' \<and> settled w w'"
  by (auto simp: available_def elapse_def silent_def settled_def)

lemma serial_read_quiet: "serial_read s w = (b, w') \<Longrightarrow> silent w w' \<and> settled w w'"
  by (cases s) (auto simp: serial_read_def elapse_def silent_def settled_def
      split: list.splits if_splits)

lemma checkPortHasData_quiet:
  "checkPortHasData port w = (r, w') \<Longrightarrow> silent w w' \<and> settled w w'"
  by (auto simp: checkPortHasData_def available_def listen_def digitalWrite_def elapse_def
      silent_def settled_def PORT1_ENABLE_def PORT2_ENABLE_def split: if_splits)

lemma checkPortHasData_port:
  "checkPortHasData port w = (r, w') \<Longrightarrow> observed r \<Longrightarrow> port = PORT1 \<or> port = PORT2"
  by (auto simp: checkPortHasData_def observed_def split: if_splits)

lemma readByte_quiet: "readByte port w = (b, w') \<Longrightarrow> silent w w' \<and> settled w w'"
  unfolding readByte_def listen_def
  by (auto split: if_splits prod.splits
      dest!: available_quiet serial_read_quiet
      intro: silent_trans settled_trans)

lemma serves_cases: "serves port s \<Longrightarrow> (port = PORT1 \<and> s = Port1) \<or> (port = PORT2 \<and> s = Port2)"
  by (simp add: serves_def)

lemma silent_tx: "silent w w' \<Longrightarrow> tx_of s w' = tx_of s w"
  by (cases s) (simp_all add: silent_def)

lemma elapse_settled: "settled w (elapse n w)"
  by (simp add: settled_def elapse_def)


subsection \<open>Transmission\<close>

lemma sendBuffer_loop_lines:
  "enable1 (sendBuffer_loop s data n i w) = enable1 w
   \<and> enable2 (sendBuffer_loop s data n i w) = enable2 w"
proof (induction s data n i w rule: sendBuffer_loop.induct)
  case (1 s data n i w)
  show ?case
  proof (cases "i < uint n")
    case True
    have "sendBuffer_loop s data n i w = sendBuffer_loop s data n (i + 1)
             (delayMicroseconds (readWriteDelay div 32) (serial_write s (data i) w))"
      using True by (subst sendBuffer_loop.simps) simp
    with "1.IH" [OF True] show ?thesis
      by (cases s) (simp_all add: delayMicroseconds_def serial_write_def elapse_def)
  next
    case False
    then show ?thesis by (subst sendBuffer_loop.simps, subst (2) sendBuffer_loop.simps) simp
  qed
qed

lemma sendBuffer_loop_tx:
  "tx_of s (sendBuffer_loop s data n (int k) w)
     = tx_of s w @ map (\<lambda>j. data (int j)) [k..<unat n]"
proof (induction "unat n - k" arbitrary: k w)
  case 0
  then have le: "unat n \<le> k" by arith
  then have "\<not> int k < uint n" using uint_nat [of n] by linarith
  then have "sendBuffer_loop s data n (int k) w = w"
    by (subst sendBuffer_loop.simps) simp
  with le show ?case by simp
next
  case (Suc d)
  then have lt: "k < unat n" by arith
  then have "int k < uint n" using uint_nat [of n] by linarith
  then have step: "sendBuffer_loop s data n (int k) w = sendBuffer_loop s data n (int (Suc k))
             (delayMicroseconds (readWriteDelay div 32) (serial_write s (data (int k)) w))"
    by (subst sendBuffer_loop.simps) (simp add: add.commute)
  have d: "d = unat n - Suc k" using Suc.hyps(2) by arith
  have "tx_of s (delayMicroseconds (readWriteDelay div 32) (serial_write s (data (int k)) w))
        = tx_of s w @ [data (int k)]"
    by (cases s) (simp_all add: delayMicroseconds_def serial_write_def elapse_def)
  with Suc.hyps(1) [OF d] step lt show ?case
    by (simp add: upt_conv_Cons)
qed

lemma sendBuffer_tx:
  assumes "serves port s"
  shows "tx_of s (sendBuffer data n port w) = tx_of s w @ dump data (unat n)"
  using serves_cases [OF assms] sendBuffer_loop_tx [of s data n 0]
  by (auto simp: sendBuffer_def dump_def Let_def digitalWrite_def flush_def
      delayMicroseconds_def elapse_def PORT1_def PORT2_def PORT1_ENABLE_def PORT2_ENABLE_def)

lemma sendBuffer_lines:
  "(port = PORT1 \<longrightarrow> enable1 (sendBuffer data n port w) = RECEIVE_MODE)
   \<and> (port = PORT2 \<longrightarrow> enable2 (sendBuffer data n port w) = RECEIVE_MODE)
   \<and> (port \<noteq> PORT1 \<longrightarrow> enable1 (sendBuffer data n port w) = enable1 w)
   \<and> (port \<noteq> PORT2 \<longrightarrow> enable2 (sendBuffer data n port w) = enable2 w)"
  by (simp add: sendBuffer_def Let_def digitalWrite_def flush_def delayMicroseconds_def
      elapse_def sendBuffer_loop_lines PORT1_def PORT2_def PORT1_ENABLE_def PORT2_ENABLE_def)

lemma sendByte_lines:
  "(port = PORT1 \<longrightarrow> enable1 (sendByte b port w) = RECEIVE_MODE)
   \<and> (port = PORT2 \<longrightarrow> enable2 (sendByte b port w) = RECEIVE_MODE)
   \<and> (port \<noteq> PORT1 \<longrightarrow> enable1 (sendByte b port w) = enable1 w)
   \<and> (port \<noteq> PORT2 \<longrightarrow> enable2 (sendByte b port w) = enable2 w)"
  by (simp add: sendByte_def Let_def digitalWrite_def flush_def serial_write_def
      elapse_def PORT1_def PORT2_def PORT1_ENABLE_def PORT2_ENABLE_def)

lemma sendByte_tx:
  assumes "serves port s"
  shows "tx_of s (sendByte b port w) = tx_of s w @ [b]"
  using serves_cases [OF assms]
  by (auto simp: sendByte_def Let_def digitalWrite_def flush_def serial_write_def
      elapse_def PORT1_def PORT2_def PORT1_ENABLE_def PORT2_ENABLE_def)

lemma sendBuffer_settled: "settled w (sendBuffer data n port w)"
  using sendBuffer_lines [of port data n w] by (auto simp: settled_def)

lemma sendByte_settled: "settled w (sendByte b port w)"
  using sendByte_lines [of port b w] by (auto simp: settled_def)


subsection \<open>The accumulation loop\<close>

lemma readBuffer_fill_quiet:
  assumes "readBuffer_fill s m tempData count endMode w = Some y"
  shows "silent w (snd (snd y)) \<and> settled w (snd (snd y))"
proof (rule readBuffer_fill.raw_induct
    [where P = "\<lambda>s m tempData count endMode w y.
                  silent w (snd (snd y)) \<and> settled w (snd (snd y))",
     OF _ assms])
  fix f :: "serial \<Rightarrow> byte \<Rightarrow> buffer \<Rightarrow> byte \<Rightarrow> bool \<Rightarrow> world
      \<Rightarrow> (buffer \<times> byte \<times> world) option"
  fix s m tempData count endMode w y
  assume IH: "\<And>s m tempData count endMode w y.
      f s m tempData count endMode w = Some y \<Longrightarrow>
      silent w (snd (snd y)) \<and> settled w (snd (snd y))"
  assume body: "(if uint count < uint m + 1 \<and> endMode
      then case available s w of
           (a, w1) \<Rightarrow>
             case if a
                  then case serial_read s w1 of
                       (b, w2) \<Rightarrow> (tempData(uint count := b), count + 1, w2)
                  else (tempData, count, w1) of
             (tempData', count', w') \<Rightarrow>
               f s m tempData' count'
                (if 1 < count' \<and>
                    tempData' (uint count' - 2) = END \<and>
                    tempData' (uint count' - 1) = END
                 then False else endMode)
                w'
      else Some (tempData, count, w)) = Some y"
  show "silent w (snd (snd y)) \<and> settled w (snd (snd y))"
  proof (cases "uint count < uint m + 1 \<and> endMode")
    case False
    with body show ?thesis by auto
  next
    case True
    obtain a w1 where av: "available s w = (a, w1)" by (cases "available s w")
    note q1 = available_quiet [OF av]
    show ?thesis
    proof (cases a)
      case False
      with body True av obtain e where "f s m tempData count e w1 = Some y" by auto
      from IH [OF this] q1 show ?thesis
        by (blast intro: silent_trans settled_trans)
    next
      case a: True
      obtain b w2 where rd: "serial_read s w1 = (b, w2)" by (cases "serial_read s w1")
      note q2 = serial_read_quiet [OF rd]
      from body True av a rd obtain e where
        "f s m (tempData(uint count := b)) (count + 1) e w2 = Some y" by auto
      from IH [OF this] q1 q2 show ?thesis
        by (blast intro: silent_trans settled_trans)
    qed
  qed
qed

lemma readBuffer_fill_stalls_aux:
  assumes "readBuffer_fill s m tempData count endMode w = Some y"
  shows "\<not> stalled s m tempData count endMode w"
proof (rule readBuffer_fill.raw_induct
    [where P = "\<lambda>s m tempData count endMode w y. \<not> stalled s m tempData count endMode w",
     OF _ assms])
  fix f :: "serial \<Rightarrow> byte \<Rightarrow> buffer \<Rightarrow> byte \<Rightarrow> bool \<Rightarrow> world
      \<Rightarrow> (buffer \<times> byte \<times> world) option"
  fix s m tempData count endMode w y
  assume IH: "\<And>s m tempData count endMode w y.
      f s m tempData count endMode w = Some y \<Longrightarrow> \<not> stalled s m tempData count endMode w"
  assume body: "(if uint count < uint m + 1 \<and> endMode
      then case available s w of
           (a, w1) \<Rightarrow>
             case if a
                  then case serial_read s w1 of
                       (b, w2) \<Rightarrow> (tempData(uint count := b), count + 1, w2)
                  else (tempData, count, w1) of
             (tempData', count', w') \<Rightarrow>
               f s m tempData' count'
                (if 1 < count' \<and>
                    tempData' (uint count' - 2) = END \<and>
                    tempData' (uint count' - 1) = END
                 then False else endMode)
                w'
      else Some (tempData, count, w)) = Some y"
  show "\<not> stalled s m tempData count endMode w"
  proof
    assume st: "stalled s m tempData count endMode w"
    then have "f s m tempData count endMode (elapse 1 w) = Some y"
      using body by (auto simp: stalled_def available_def split: if_splits)
    from IH [OF this] have "\<not> stalled s m tempData count endMode (elapse 1 w)" .
    moreover have "stalled s m tempData count endMode (elapse 1 w)"
      using st by (cases s) (auto simp: stalled_def elapse_def)
    ultimately show False by simp
  qed
qed

lemma readBuffer_fill_stalls:
  assumes "stalled s m tempData count endMode w"
  shows "readBuffer_fill s m tempData count endMode w = None"
proof (cases "readBuffer_fill s m tempData count endMode w")
  case None
  then show ?thesis .
next
  case (Some y)
  from readBuffer_fill_stalls_aux [OF Some] assms show ?thesis by simp
qed

lemma readBuffer_fill_lone_byte:
  assumes "rx_of s w = [(t, b)]" "t \<le> clock w" "0 < m"
  shows "readBuffer_fill s m stack 0 True w = None"
proof -
  have m: "0 < uint m" using assms(3) by (simp add: word_less_def)
  have "readBuffer_fill s m stack 0 True w
      = readBuffer_fill s m (stack(0 := b)) 1 True (rx_update s [] (elapse 1 (elapse 1 w)))"
    using assms(1,2) m
    by (subst readBuffer_fill.simps) (cases s; simp add: port_defs)
  also have "\<dots> = None"
    using m by (intro readBuffer_fill_stalls) (cases s; simp add: stalled_def elapse_def)
  finally show ?thesis .
qed


subsection \<open>readBuffer\<close>

lemma readBuffer_poll_result:
  assumes "readBuffer_poll deadline tempData m port count w = Some (c, buf, w')"
  shows "silent w w' \<and> settled w w'
     \<and> ((c = 0 \<and> buf = tempData)
        \<or> (\<exists>s n w1. serves port s
              \<and> readBuffer_fill s m tempData count True w1 = Some (buf, n, w')
              \<and> c = readBuffer_check buf n))"
  using assms
proof (induction deadline tempData m port count w rule: readBuffer_poll.induct)
  case (1 deadline tempData m port count w)
  obtain now w0 where ml: "millis w = (now, w0)" by (cases "millis w")
  obtain r w1 where cp: "checkPortHasData port w0 = (r, w1)"
    by (cases "checkPortHasData port w0")
  note q0 = millis_quiet [OF ml]
  note q1 = checkPortHasData_quiet [OF cp]
  have q01: "silent w w1 \<and> settled w w1"
    using q0 q1 by (blast intro: silent_trans settled_trans)
  note unf = "1.prems" [unfolded readBuffer_poll.simps [of deadline tempData m port count w]]
  show ?case
  proof (cases "deadline > now")
    case False
    with unf ml q0 show ?thesis by auto
  next
    case dl: True
    show ?thesis
    proof (cases "observed r")
      case False
      with unf ml cp dl q01 show ?thesis by auto
    next
      case ob: True
      show ?thesis
      proof (cases "count < m")
        case False
        with unf ml cp dl ob
        have "readBuffer_poll deadline tempData m port count w1 = Some (c, buf, w')" by simp
        from "1.IH" [OF ml [symmetric] dl cp [symmetric] ob False this] q01
        show ?thesis by (blast intro: silent_trans settled_trans)
      next
        case lt: True
        from checkPortHasData_port [OF cp ob] have pt: "port = PORT1 \<or> port = PORT2" .
        then obtain s where sv: "serves port s" by (auto simp: serves_def)
        with unf ml cp dl ob lt obtain n where
          fill: "readBuffer_fill s m tempData count True w1 = Some (buf, n, w')"
          and c: "c = readBuffer_check buf n"
          by (auto simp: serves_def PORT1_def PORT2_def split: option.splits if_splits)
        from readBuffer_fill_quiet [OF fill] q01 have "silent w w' \<and> settled w w'"
          by (auto intro: silent_trans settled_trans)
        with sv fill c show ?thesis by blast
      qed
    qed
  qed
qed

lemma readBuffer_check_framing:
  "readBuffer_check buf n = (if validateFraming buf (uint n) then n else 0)"
  by (auto simp: readBuffer_check_def validateFraming_def)

lemma readBuffer_result:
  assumes "readBuffer stack m port w = Some (c, buf, w')"
  shows "silent w w' \<and> settled w w'
     \<and> ((c = 0 \<and> buf = stack)
        \<or> (\<exists>s n w1. serves port s
              \<and> readBuffer_fill s m stack 0 True w1 = Some (buf, n, w')
              \<and> c = readBuffer_check buf n))"
proof -
  obtain t w0 where ml: "millis w = (t, w0)" by (cases "millis w")
  with assms have "readBuffer_poll (t + sendReceiveTimeout) stack m port 0 w0 = Some (c, buf, w')"
    by (simp add: readBuffer_def)
  from readBuffer_poll_result [OF this] millis_quiet [OF ml] show ?thesis
    by (blast intro: silent_trans settled_trans)
qed

lemma START_neq_END: "START \<noteq> END"
  by (simp add: START_def END_def)

lemma validateFraming_min:
  assumes "validateFraming buf (uint c)" "c \<noteq> 0"
  shows "3 \<le> uint c"
proof (rule ccontr)
  assume "\<not> 3 \<le> uint c"
  moreover have "uint c \<noteq> 0" using assms(2) by (simp add: uint_0_iff)
  moreover have "0 \<le> uint c" by simp
  ultimately have "uint c = 1 \<or> uint c = 2" by arith
  with assms(1) START_neq_END show False by (auto simp: validateFraming_def)
qed


subsection \<open>The two handshake loops\<close>

lemma receiveData_await_result:
  assumes "receiveData_await deadline data tempData count port w = (r, data', w')"
  shows "silent w w' \<and> settled w w'
       \<and> data' = (if r then receiveData_extract data count tempData else data)"
  using assms
proof (induction deadline data tempData count port w rule: receiveData_await.induct)
  case (1 deadline data tempData count port w)
  obtain now w0 where ml: "millis w = (now, w0)" by (cases "millis w")
  obtain a w1 where cp: "checkPortHasData port w0 = (a, w1)"
    by (cases "checkPortHasData port w0")
  obtain response w2 where rb: "readByte port w1 = (response, w2)"
    by (cases "readByte port w1")
  note q0 = millis_quiet [OF ml]
  note q1 = checkPortHasData_quiet [OF cp]
  note q2 = readByte_quiet [OF rb]
  have q01: "silent w w1 \<and> settled w w1"
    using q0 q1 by (blast intro: silent_trans settled_trans)
  have q02: "silent w w2 \<and> settled w w2"
    using q01 q2 by (blast intro: silent_trans settled_trans)
  note unf = "1.prems" [unfolded receiveData_await.simps [of deadline data tempData count port w]]
  show ?case
  proof (cases "deadline > now")
    case False
    with unf ml q0 show ?thesis by auto
  next
    case dl: True
    show ?thesis
    proof (cases "observed a")
      case False
      with unf ml cp dl
      have "receiveData_await deadline data tempData count port w1 = (r, data', w')" by simp
      from "1.IH"(2) [OF ml [symmetric] dl cp [symmetric] False this] q01
      show ?thesis by (blast intro: silent_trans settled_trans)
    next
      case ob: True
      show ?thesis
      proof (cases "response > 0")
        case False
        with unf ml cp dl ob rb
        have "receiveData_await deadline data tempData count port w2 = (r, data', w')" by simp
        from "1.IH"(1) [OF ml [symmetric] dl cp [symmetric] ob rb [symmetric] False this] q02
        show ?thesis by (blast intro: silent_trans settled_trans)
      next
        case True
        with unf ml cp dl ob rb q02 show ?thesis by (auto split: if_splits)
      qed
    qed
  qed
qed

lemma receiveData_extract_payload:
  assumes "3 \<le> uint count"
  shows "uint (receiveData_extract data count tempData 0) = (uint count - 2) div 2"
    and "received_payload (receiveData_extract data count tempData)
         = map (\<lambda>i. tempData (2 * int i + 1)) [0..<nat ((uint count - 2) div 2)]"
proof -
  let ?out = "receiveData_extract data count tempData"
  let ?n = "(uint count - 2) div 2"
  have ub: "uint count < 256" using uint_lt2p [of count] by simp
  have n: "0 \<le> ?n" "?n < 256" "?n \<le> uint count - 2" using assms ub by auto
  have "c_div (uint count - 2) 2 = ?n"
    using assms by (simp add: c_div_def sgn_if)
  then have out0: "?out 0 = word_of_int ?n"
    by (simp add: receiveData_extract_def receiveData_copy_at)
  have "uint (word_of_int ?n :: byte) = take_bit 8 ?n"
    by (subst uint_word_of_int_eq) simp
  also have "\<dots> = ?n" using n by (intro take_bit_int_eq_self) auto
  finally show u0: "uint (?out 0) = ?n" unfolding out0 .
  then have un: "unat (?out 0) = nat ?n" by (simp add: unat_eq_nat_uint)
  have at: "?out (1 + int j) = tempData (2 * int j + 1)" if "j < nat ?n" for j
  proof -
    from that n have "1 + int j \<le> uint count - 2" by linarith
    then show ?thesis
      by (simp add: receiveData_extract_def receiveData_copy_at)
  qed
  show "received_payload ?out = map (\<lambda>i. tempData (2 * int i + 1)) [0..<nat ?n]"
    unfolding received_payload_def un using at by simp
qed

lemma sendData_await_result:
  assumes "sendData_await deadline stack tempData n port w = Some (r, w')"
  shows "settled w w'
     \<and> ((\<not> r \<and> silent w w')
        \<or> ((port = PORT1 \<or> port = PORT2)
            \<and> (\<exists>w2. silent w w2
                  \<and> w' = (if r then delayMicroseconds readWriteDelay (sendByte ACK port w2)
                          else sendByte NAK port w2))))"
  using assms
proof (induction deadline stack tempData n port w rule: sendData_await.induct)
  case (1 deadline stack tempData n port w)
  obtain now w0 where ml: "millis w = (now, w0)" by (cases "millis w")
  obtain a w1 where cp: "checkPortHasData port w0 = (a, w1)"
    by (cases "checkPortHasData port w0")
  note q0 = millis_quiet [OF ml]
  note q1 = checkPortHasData_quiet [OF cp]
  have q01: "silent w w1 \<and> settled w w1"
    using q0 q1 by (blast intro: silent_trans settled_trans)
  note unf = "1.prems" [unfolded sendData_await.simps [of deadline stack tempData n port w]]
  show ?case
  proof (cases "deadline > now")
    case False
    with unf ml q0 show ?thesis by auto
  next
    case dl: True
    show ?thesis
    proof (cases "observed a")
      case False
      with unf ml cp dl
      have "sendData_await deadline stack tempData n port w1 = Some (r, w')" by simp
      from "1.IH" [OF ml [symmetric] dl cp [symmetric] False this] q01
      show ?thesis by (blast intro: silent_trans settled_trans)
    next
      case ob: True
      from checkPortHasData_port [OF cp ob] have pt: "port = PORT1 \<or> port = PORT2" .
      from unf ml cp dl ob obtain count testData w2 where
        rb: "readBuffer stack n port w1 = Some (count, testData, w2)"
        by (auto split: option.splits)
      from readBuffer_result [OF rb] q01 have q02: "silent w w2 \<and> settled w w2"
        by (blast intro: silent_trans settled_trans)
      from unf ml cp dl ob rb
      have w': "w' = (if r then delayMicroseconds readWriteDelay (sendByte ACK port w2)
                          else sendByte NAK port w2)"
        by (auto split: if_splits)
      have "settled w2 w'"
        unfolding w' delayMicroseconds_def
        by (auto intro: settled_trans [OF sendByte_settled elapse_settled] sendByte_settled)
      with q02 have st: "settled w w'" by (blast intro: settled_trans)
      from q02 w' have "\<exists>w2. silent w w2
                  \<and> w' = (if r then delayMicroseconds readWriteDelay (sendByte ACK port w2)
                          else sendByte NAK port w2)"
        by (intro exI [of _ w2]) simp
      with st pt show ?thesis by simp
    qed
  qed
qed

lemma sendData_await_tx:
  assumes "sendData_await deadline stack tempData n port w = Some (r, w')" "serves port s"
  shows "tx_of s w' = tx_of s w @ (if r then [ACK] else [])
         \<or> (\<not> r \<and> tx_of s w' = tx_of s w @ [NAK])"
proof -
  from sendData_await_result [OF assms(1)]
  consider "\<not> r" "silent w w'"
    | w2 where "silent w w2"
        "w' = (if r then delayMicroseconds readWriteDelay (sendByte ACK port w2)
               else sendByte NAK port w2)"
    by blast
  then show ?thesis
  proof cases
    case 1
    then show ?thesis by (simp add: silent_tx)
  next
    case 2
    have "tx_of s (delayMicroseconds k v) = tx_of s v" for k v
      by (cases s) (simp_all add: delayMicroseconds_def elapse_def)
    with 2 show ?thesis
      by (simp add: sendByte_tx [OF assms(2)] silent_tx)
  qed
qed

lemma sendData_settled:
  assumes "sendData stack data numBytes port w = Some (r, w')"
  shows "settled w w'"
proof (cases "numBytes \<le> 0")
  case True
  with assms show ?thesis by (simp add: sendData_def)
next
  case False
  let ?w1 = "sendBuffer (sendData_frame stack data numBytes) (sendData_numDataBytes numBytes) port w"
  obtain t w2 where ml: "millis ?w1 = (t, w2)" by (cases "millis ?w1")
  with assms False obtain d where
    "sendData_await d stack (sendData_frame stack data numBytes)
       (sendData_numDataBytes numBytes) port w2 = Some (r, w')"
    by (simp add: sendData_def)
  from sendData_await_result [OF this] millis_quiet [OF ml] sendBuffer_settled [of w _ _ port]
  show ?thesis by (blast intro: settled_trans)
qed

lemma sendData_tx:
  assumes "sendData stack data numBytes port w = Some (r, w')"
    and "0 < numBytes" "numBytes \<le> 126" "serves port s"
  shows "\<exists>rest. tx_of s w'
           = tx_of s w @ dump (sendData_frame stack data numBytes) (nat (2 * numBytes + 3)) @ rest"
proof -
  let ?f = "sendData_frame stack data numBytes"
  let ?n = "sendData_numDataBytes numBytes"
  let ?w1 = "sendBuffer ?f ?n port w"
  have "uint ?n = 3 + 2 * numBytes" using assms(2,3) by (intro numDataBytes_uint) auto
  then have n: "unat ?n = nat (2 * numBytes + 3)"
    using uint_nat [of ?n] by linarith
  obtain t w2 where ml: "millis ?w1 = (t, w2)" by (cases "millis ?w1")
  with assms(1,2) obtain d where
    "sendData_await d stack ?f ?n port w2 = Some (r, w')"
    by (simp add: sendData_def)
  from sendData_await_tx [OF this assms(4)]
  obtain rest where "tx_of s w' = tx_of s w2 @ rest" by auto
  moreover have "tx_of s w2 = tx_of s ?w1"
    using millis_quiet [OF ml] by (simp add: silent_tx)
  ultimately show ?thesis
    by (simp add: sendBuffer_tx [OF assms(4)] n)
qed

lemma receiveData_settled:
  assumes "receiveData stack data m port w = Some (r, data', w')"
  shows "settled w w'"
proof -
  obtain a w1 where cp: "checkPortHasData port w = (a, w1)"
    by (cases "checkPortHasData port w")
  note q1 = checkPortHasData_quiet [OF cp]
  note unf = assms [unfolded receiveData_def cp]
  show ?thesis
  proof (cases "observed a")
    case False
    with unf q1 show ?thesis by auto
  next
    case ob: True
    with unf obtain count tempData w2 where
      rb: "readBuffer stack m port w1 = Some (count, tempData, w2)"
      by (auto split: option.splits)
    from readBuffer_result [OF rb] q1 have q2: "settled w w2"
      by (blast intro: settled_trans)
    show ?thesis
    proof (cases "count > 0")
      case False
      with unf ob rb q2 show ?thesis by auto
    next
      case True
      let ?w4 = "delay 1 (sendBuffer tempData count port w2)"
      obtain t w5 where ml: "millis ?w4 = (t, w5)" by (cases "millis ?w4")
      with unf ob rb True obtain d where
        "receiveData_await d data tempData count port w5 = (r, data', w')"
        by (auto simp: Let_def)
      from receiveData_await_result [OF this] have "settled w5 w'" by simp
      moreover have "settled w2 ?w4"
        unfolding delay_def by (rule settled_trans [OF sendBuffer_settled elapse_settled])
      moreover have "settled ?w4 w5"
        using millis_quiet [OF ml] by simp
      ultimately have "settled w2 w'"
        by (blast intro: settled_trans)
      with q2 show ?thesis by (rule settled_trans)
    qed
  qed
qed


subsection \<open>Concrete runs\<close>

lemma scenarioB_run:
  "map_option (\<lambda>(r, d, w). (r, dump d 4, tx1 w))
     (receiveData (\<lambda>_. 0) (\<lambda>_. 0) dataLength PORT1 scenarioB)
  = Some (True, [3, 1, 2, 3], frame_of [1, 2, 3])"
  by (simp add: scenarioB_def idle_def incoming_def frame_of_def dump_def upt_rec
      readBuffer_fill.simps constant_defs port_defs program_defs loop_simps)

lemma run33:
  "map_option (\<lambda>(r, w). (r, tx1 w))
       (sendData zeros (load payload33 zeros) 33 PORT1
          (idle\<lparr>rx1 := incoming (frame_of payload33)\<rparr>)) = Some (True, frame_of payload33 @ [ACK])"
  by (simp add: payload33_def upt_rec run_simps)

lemma nak_run:
  "map_option (\<lambda>(r, w). (r, tx1 w))
     (sendData zeros (load [5] zeros) 1 PORT1 (idle\<lparr>rx1 := incoming [END, END]\<rparr>))
   = Some (False, frame_of [5] @ [NAK])"
  by (simp add: run_simps)

section \<open>Frame comparison\<close>

text \<open>
  Claim C2. \<^verbatim>\<open>verifyData\<close> is to return true only if the data bytes of the two frames are
  identical at every pair. The frame of \<open>[4]\<close> and a copy whose data byte was changed to 6
  (with the complement byte untouched) differ at index 1, and \<^verbatim>\<open>verifyData\<close> returns true
  for them: the test of its loop only fires when both data bytes are odd.
\<close>

theorem verifyData_accepts_changed_byte:
  "verifyData (load (frame_of [4]) zeros) (load [START, 6, NOT 4, END, END] zeros) 5
   \<and> load (frame_of [4]) zeros 1 \<noteq> load [START, 6, NOT 4, END, END] zeros 1"
  by (simp add: run_simps)


section \<open>receiveData\<close>

text \<open>
  Claim C3. Whenever \<^verbatim>\<open>receiveData\<close> returns true, \<^verbatim>\<open>readBuffer\<close> had returned a count of
  at least 3 for a buffer with valid framing, \<^verbatim>\<open>data[0]\<close> is \<open>(count - 2) / 2\<close> and the cells
  from \<^verbatim>\<open>data[1]\<close> on hold the bytes at the odd indices of that buffer, in order.
\<close>

theorem receiveData_output:
  assumes "receiveData stack data m port w = Some (True, data', w')"
  shows "\<exists>count tempData w2.
           readBuffer stack m port (snd (checkPortHasData port w)) = Some (count, tempData, w2)
         \<and> validateFraming tempData (uint count) \<and> 3 \<le> uint count
         \<and> uint (data' 0) = (uint count - 2) div 2
         \<and> received_payload data'
             = map (\<lambda>i. tempData (2 * int i + 1)) [0..<nat ((uint count - 2) div 2)]"
proof -
  obtain r w1 where cp: "checkPortHasData port w = (r, w1)"
    by (cases "checkPortHasData port w")
  note unf = assms [unfolded receiveData_def cp]
  from unf have ob: "observed r" by (auto split: if_splits)
  with unf obtain count tempData w2 where
    rb: "readBuffer stack m port w1 = Some (count, tempData, w2)"
    by (auto split: option.splits)
  from unf ob rb have pos: "count > 0" by (auto split: if_splits)
  then have nz: "count \<noteq> 0" by auto
  from unf ob rb pos obtain d t w5 where
    aw: "receiveData_await d data tempData count port w5 = (True, data', w')"
    by (auto simp: Let_def split: prod.splits)
  from receiveData_await_result [OF aw]
  have out: "data' = receiveData_extract data count tempData" by simp
  from readBuffer_result [OF rb] nz
  have vf: "validateFraming tempData (uint count)"
    by (auto simp: readBuffer_check_framing split: if_splits)
  from validateFraming_min [OF vf nz] have three: "3 \<le> uint count" .
  from receiveData_extract_payload [OF three, of data tempData] rb vf three cp
  show ?thesis unfolding out by auto
qed


text \<open>Witness for C3: Scenario B, where the array becomes \<open>[3, 1, 2, 3]\<close>.\<close>

theorem receiveData_output_witness:
  "\<exists>data' w'. receiveData (\<lambda>_. 0) (\<lambda>_. 0) dataLength PORT1 scenarioB = Some (True, data', w')
     \<and> dump data' 4 = [3, 1, 2, 3]
     \<and> uint (data' 0) = 3 \<and> received_payload data' = [1, 2, 3]"
proof -
  from scenarioB_run obtain data' w' where
    run: "receiveData (\<lambda>_. 0) (\<lambda>_. 0) dataLength PORT1 scenarioB = Some (True, data', w')"
    and d: "dump data' 4 = [3, 1, 2, 3]"
    by (auto simp: map_option_case split: option.splits)
  from receiveData_output [OF run] obtain count tempData w2 where
    h: "readBuffer (\<lambda>_. 0) dataLength PORT1 (snd (checkPortHasData PORT1 scenarioB))
          = Some (count, tempData, w2)
        \<and> validateFraming tempData (uint count) \<and> 3 \<le> uint count
        \<and> uint (data' 0) = (uint count - 2) div 2
        \<and> received_payload data'
             = map (\<lambda>i. tempData (2 * int i + 1)) [0..<nat ((uint count - 2) div 2)]"
    by (elim exE) (rule that)
  from d have d0: "data' 0 = 3" "data' 1 = 1" "data' 2 = 2" "data' 3 = 3"
    by (simp_all add: dump_def upt_rec)
  then have "received_payload data' = [1, 2, 3]"
    by (simp add: received_payload_def upt_rec)
  with run d d0 h show ?thesis by simp
qed


section \<open>The length check of sendData\<close>

text \<open>
  Counterexample for C4. A payload of 33 bytes, one more than \<open>MAXBYTES\<close>, is not rejected:
  \<^verbatim>\<open>sendData\<close> transmits its 69-byte frame and, the peer echoing it, sends ACK and returns
  true.
\<close>

theorem sendData_accepts_33_bytes:
  "MAXBYTES < 33
   \<and> map_option fst
       (sendData zeros (load payload33 zeros) 33 PORT1
          (idle\<lparr>rx1 := incoming (frame_of payload33)\<rparr>)) = Some True
   \<and> map_option (tx1 \<circ> snd)
       (sendData zeros (load payload33 zeros) 33 PORT1
          (idle\<lparr>rx1 := incoming (frame_of payload33)\<rparr>)) = Some (frame_of payload33 @ [ACK])"
  using run33 by (auto simp: MAXBYTES_def map_option_case split: option.splits)


text \<open>
  Claim C4, amended. \<^verbatim>\<open>sendData\<close> returns false with the world untouched for every
  \<open>numBytes \<le> 0\<close>; for a length from 1 to 126, which no upper bound cuts off, a call that
  returns has transmitted the frame on the selected port.
\<close>

theorem sendData_length_check:
  "(numBytes \<le> 0 \<longrightarrow> sendData stack data numBytes port w = Some (False, w))
   \<and> (0 < numBytes \<and> numBytes \<le> 126 \<and> serves port s
        \<and> sendData stack data numBytes port w = Some (r, w')
      \<longrightarrow> (\<exists>rest. tx_of s w'
             = tx_of s w @ dump (sendData_frame stack data numBytes) (nat (2 * numBytes + 3))
                 @ rest))"
  using sendData_tx [of stack data numBytes port w r w' s]
  by (simp add: sendData_def)


text \<open>Witness for C4: length 0 is refused, length 33 is framed and sent.\<close>

theorem sendData_length_check_witness:
  "(0::int) \<le> 0 \<and> sendData zeros zeros 0 PORT1 idle = Some (False, idle)
   \<and> (0::int) < 33 \<and> (33::int) \<le> 126 \<and> serves PORT1 Port1
   \<and> (\<exists>r w'. sendData zeros (load payload33 zeros) 33 PORT1
                 (idle\<lparr>rx1 := incoming (frame_of payload33)\<rparr>) = Some (r, w')
        \<and> (\<exists>rest. tx1 w' = dump (sendData_frame zeros (load payload33 zeros) 33) 69 @ rest))"
proof -
  from run33 obtain r w' where
    run: "sendData zeros (load payload33 zeros) 33 PORT1
            (idle\<lparr>rx1 := incoming (frame_of payload33)\<rparr>) = Some (r, w')"
    by (auto simp: map_option_case split: option.splits)
  have sv: "serves PORT1 Port1" by (simp add: serves_def)
  from sendData_length_check [of 33 zeros "load payload33 zeros" PORT1
      "idle\<lparr>rx1 := incoming (frame_of payload33)\<rparr>" Port1 r w'] run sv
  have "\<exists>rest. tx1 w' = dump (sendData_frame zeros (load payload33 zeros) 33) 69 @ rest"
    by (simp add: idle_def)
  moreover from sendData_length_check [of 0 zeros zeros PORT1 idle]
  have "sendData zeros zeros 0 PORT1 idle = Some (False, idle)" by simp
  ultimately show ?thesis using run sv
    by (intro conjI exI [of _ r] exI [of _ w']) simp_all
qed


section \<open>The failure paths of the sender\<close>

text \<open>
  Counterexample for C5. The peer answers the frame of \<open>[5]\<close> with two END bytes: the port
  reports data, \<^verbatim>\<open>readBuffer\<close> yields count 0, and \<^verbatim>\<open>sendData\<close> returns false after
  transmitting one further byte, NAK.
\<close>

theorem sendData_sends_NAK_on_empty_read:
  "fst (checkPortHasData PORT1 echo_poll) = Some True
   \<and> map_option fst (readBuffer zeros (sendData_numDataBytes 1) PORT1
        (snd (checkPortHasData PORT1 echo_poll))) = Some 0
   \<and> map_option fst
       (sendData zeros (load [5] zeros) 1 PORT1 (idle\<lparr>rx1 := incoming [END, END]\<rparr>))
       = Some False
   \<and> map_option (tx1 \<circ> snd)
       (sendData zeros (load [5] zeros) 1 PORT1 (idle\<lparr>rx1 := incoming [END, END]\<rparr>))
       = Some (frame_of [5] @ [NAK])"
proof -
  have a: "fst (checkPortHasData PORT1 echo_poll) = Some True"
    by (simp add: echo_poll_def run_simps)
  have b: "map_option fst (readBuffer zeros (sendData_numDataBytes 1) PORT1
        (snd (checkPortHasData PORT1 echo_poll))) = Some 0"
    by (simp add: echo_poll_def run_simps)
  from nak_run a b show ?thesis
    by (auto simp: map_option_case split: option.splits)
qed


text \<open>
  Claim C5, amended. In the verification loop of \<^verbatim>\<open>sendData\<close>, when the port reports data
  and the echo read yields count 0, or a count above 0 with a failed comparison, the sender
  transmits exactly one further byte, NAK, and returns failure.
\<close>

theorem sendData_NAK_on_failed_echo:
  assumes "millis w = (now, w0)" "now < deadline"
    and "checkPortHasData port w0 = (a, w1)" "observed a"
    and "readBuffer stack n port w1 = Some (count, testData, w2)"
    and "count = 0 \<or> \<not> verifyData tempData testData n"
    and "serves port s"
  shows "sendData_await deadline stack tempData n port w = Some (False, sendByte NAK port w2)
       \<and> tx_of s (sendByte NAK port w2) = tx_of s w @ [NAK]"
proof -
  have run: "sendData_await deadline stack tempData n port w = Some (False, sendByte NAK port w2)"
    using assms(1-6) by (subst sendData_await.simps) auto
  have "silent w w2"
    using millis_quiet [OF assms(1)] checkPortHasData_quiet [OF assms(3)]
      readBuffer_result [OF assms(5)]
    by (blast intro: silent_trans)
  then have "tx_of s (sendByte NAK port w2) = tx_of s w @ [NAK]"
    by (simp add: sendByte_tx [OF assms(7)] silent_tx)
  with run show ?thesis by simp
qed


text \<open>Witness for C5: the same peer, seen from the entry of the verification loop.\<close>

theorem sendData_NAK_on_failed_echo_witness:
  "\<exists>testData w2.
     millis garbled = (fst (millis garbled), snd (millis garbled))
     \<and> fst (millis garbled) < sendReceiveTimeout
     \<and> observed (fst (checkPortHasData PORT1 (snd (millis garbled))))
     \<and> readBuffer zeros 5 PORT1 (snd (checkPortHasData PORT1 (snd (millis garbled))))
         = Some (0, testData, w2)
     \<and> serves PORT1 Port1
     \<and> sendData_await sendReceiveTimeout zeros (load (frame_of [5]) zeros) 5 PORT1 garbled
         = Some (False, sendByte NAK PORT1 w2)
     \<and> tx1 (sendByte NAK PORT1 w2) = tx1 garbled @ [NAK]"
proof -
  let ?w0 = "snd (millis garbled)"
  let ?w1 = "snd (checkPortHasData PORT1 ?w0)"
  have ml: "millis garbled = (fst (millis garbled), ?w0)" by simp
  have dl: "fst (millis garbled) < sendReceiveTimeout"
    by (simp add: garbled_def run_simps)
  have cp: "checkPortHasData PORT1 ?w0 = (fst (checkPortHasData PORT1 ?w0), ?w1)" by simp
  have ob: "observed (fst (checkPortHasData PORT1 ?w0))"
    by (simp add: garbled_def run_simps)
  have "map_option fst (readBuffer zeros 5 PORT1 ?w1) = Some 0"
    by (simp add: garbled_def run_simps)
  then obtain testData w2 where rb: "readBuffer zeros 5 PORT1 ?w1 = Some (0, testData, w2)"
    by (auto simp: map_option_case split: option.splits)
  have sv: "serves PORT1 Port1" by (simp add: serves_def)
  from sendData_NAK_on_failed_echo [OF ml dl cp ob rb _ sv, of "load (frame_of [5]) zeros"]
  have "sendData_await sendReceiveTimeout zeros (load (frame_of [5]) zeros) 5 PORT1 garbled
         = Some (False, sendByte NAK PORT1 w2)
     \<and> tx1 (sendByte NAK PORT1 w2) = tx1 garbled @ [NAK]"
    by simp
  with ml dl ob rb sv show ?thesis by blast
qed


section \<open>Blocking\<close>

text \<open>
  Claim C6. A call is to return within the timeout whatever arrives. When a single START byte
  arrives and nothing follows, neither \<^verbatim>\<open>receiveData\<close> nor \<^verbatim>\<open>sendData\<close> returns: the
  innermost loop of \<^verbatim>\<open>readBuffer\<close> never looks at the clock.
\<close>

theorem blocks_forever:
  "receiveData stack data dataLength PORT1 (idle\<lparr>rx1 := incoming [START]\<rparr>) = None
   \<and> sendData stack (load [5] bg) 1 PORT1 (idle\<lparr>rx1 := incoming [START]\<rparr>) = None"
proof -
  have r: "receiveData stack data dataLength PORT1 (idle\<lparr>rx1 := incoming [START]\<rparr>) = None"
    by (simp add: idle_def incoming_def readBuffer_fill_lone_byte constant_defs port_defs program_defs loop_simps)
  have s: "sendData stack (load [5] bg) 1 PORT1 (idle\<lparr>rx1 := incoming [START]\<rparr>) = None"
    by (simp add: idle_def incoming_def load_def readBuffer_fill_lone_byte constant_defs port_defs program_defs loop_simps)
  from r s show ?thesis by simp
qed


section \<open>Framing\<close>

text \<open>
  Claim C7. A nonzero count returned by \<^verbatim>\<open>readBuffer\<close> comes with a buffer whose first byte
  is START and whose last two bytes are END; and the call either returns 0 with the buffer
  untouched, or has accumulated \<open>n\<close> bytes and returns \<open>n\<close> if they pass the framing test and
  0 if they do not, whatever else they contain.
\<close>

theorem readBuffer_framing:
  assumes "readBuffer stack m port w = Some (c, buf, w')"
  shows "(c \<noteq> 0 \<longrightarrow> validateFraming buf (uint c))
       \<and> ((c = 0 \<and> buf = stack)
          \<or> (\<exists>s n w1. readBuffer_fill s m stack 0 True w1 = Some (buf, n, w')
                \<and> c = (if validateFraming buf (uint n) then n else 0)))"
proof -
  from readBuffer_result [OF assms]
  consider "c = 0" "buf = stack"
    | s n w1 where "readBuffer_fill s m stack 0 True w1 = Some (buf, n, w')"
        "c = readBuffer_check buf n"
    by blast
  then show ?thesis
  proof cases
    case 1
    then show ?thesis by simp
  next
    case 2
    have "c \<noteq> 0 \<longrightarrow> validateFraming buf (uint c)"
      using 2(2) by (simp add: readBuffer_check_framing split: if_splits)
    with 2 show ?thesis unfolding readBuffer_check_framing by blast
  qed
qed


text \<open>Witness for C7: the frame of \<open>[5]\<close> is accepted with count 5.\<close>

theorem readBuffer_framing_witness:
  "\<exists>buf w'. readBuffer zeros dataLength PORT1 (idle\<lparr>rx1 := incoming (frame_of [5])\<rparr>)
              = Some (5, buf, w')
     \<and> (5::byte) \<noteq> 0 \<and> validateFraming buf (uint (5::byte))
     \<and> (\<exists>s n w1. readBuffer_fill s dataLength zeros 0 True w1 = Some (buf, n, w')
                \<and> (5::byte) = (if validateFraming buf (uint n) then n else 0))"
proof -
  have "map_option fst (readBuffer zeros dataLength PORT1
          (idle\<lparr>rx1 := incoming (frame_of [5])\<rparr>)) = Some 5"
    by (simp add: run_simps)
  then obtain buf w' where
    run: "readBuffer zeros dataLength PORT1 (idle\<lparr>rx1 := incoming (frame_of [5])\<rparr>)
            = Some (5, buf, w')"
    by (auto simp: map_option_case split: option.splits)
  from readBuffer_framing [OF run]
  have "validateFraming buf (uint (5::byte))
     \<and> (\<exists>s n w1. readBuffer_fill s dataLength zeros 0 True w1 = Some (buf, n, w')
                \<and> (5::byte) = (if validateFraming buf (uint n) then n else 0))"
    by simp
  with run show ?thesis by (intro exI [of _ buf] exI [of _ w']) simp
qed


section \<open>Direction of the transceivers\<close>

text \<open>
  Claim C8. \<^verbatim>\<open>sendBuffer\<close> and \<^verbatim>\<open>sendByte\<close> leave the enable line of the port they were
  given in receive mode; and they, as well as every call of \<^verbatim>\<open>sendData\<close> or \<^verbatim>\<open>receiveData\<close>
  that returns, leave each of the two lines as they found it or in receive mode.
\<close>

theorem direction_discipline:
  "(serves port s \<longrightarrow>
      enable_of s (sendBuffer data numBytes port w) = RECEIVE_MODE
      \<and> enable_of s (sendByte temp port w) = RECEIVE_MODE)
   \<and> settled w (sendBuffer data numBytes port w)
   \<and> settled w (sendByte temp port w)
   \<and> (sendData stack payload n port w = Some (r, w') \<longrightarrow> settled w w')
   \<and> (receiveData stack out m port w = Some (r', out', w'') \<longrightarrow> settled w w'')"
proof -
  have lines: "serves port s \<longrightarrow>
      enable_of s (sendBuffer data numBytes port w) = RECEIVE_MODE
      \<and> enable_of s (sendByte temp port w) = RECEIVE_MODE"
    using sendBuffer_lines [of port data numBytes w] sendByte_lines [of port temp w]
    by (auto dest!: serves_cases)
  have sd: "sendData stack payload n port w = Some (r, w') \<longrightarrow> settled w w'"
    by (rule impI) (rule sendData_settled)
  have rd: "receiveData stack out m port w = Some (r', out', w'') \<longrightarrow> settled w w''"
    by (rule impI) (rule receiveData_settled)
  from lines sd rd sendBuffer_settled [of w data numBytes port]
    sendByte_settled [of w temp port]
  show ?thesis by simp
qed


text \<open>Witness for C8: port 1, starting with its line in transmit mode.\<close>

theorem direction_discipline_witness:
  "serves PORT1 Port1
   \<and> enable1 keyed = SEND_MODE
   \<and> enable1 (sendBuffer zeros 3 PORT1 keyed) = RECEIVE_MODE
   \<and> enable1 (sendByte ACK PORT1 keyed) = RECEIVE_MODE
   \<and> (\<exists>r w'. sendData zeros (load [5] zeros) 1 PORT1 garbled = Some (r, w')
         \<and> settled garbled w')
   \<and> (\<exists>r out' w''. receiveData zeros zeros dataLength PORT1 keyed = Some (r, out', w'')
         \<and> settled keyed w'')"
proof -
  have sv: "serves PORT1 Port1" by (simp add: serves_def)
  have k: "enable1 keyed = SEND_MODE" by (simp add: keyed_def idle_def)
  from nak_run obtain r w' where
    s: "sendData zeros (load [5] zeros) 1 PORT1 garbled = Some (r, w')"
    by (auto simp: garbled_def map_option_case split: option.splits)
  have "map_option fst (receiveData zeros zeros dataLength PORT1 keyed) = Some True"
    by (simp add: keyed_def run_simps)
  then obtain r' out' w'' where
    rc: "receiveData zeros zeros dataLength PORT1 keyed = Some (r', out', w'')"
    by (auto simp: map_option_case split: option.splits)
  from direction_discipline [of PORT1 Port1 zeros 3 keyed ACK zeros "load [5] zeros" 1 r w'
      zeros dataLength r' out' w''] sv
  have a: "enable1 (sendBuffer zeros 3 PORT1 keyed) = RECEIVE_MODE
         \<and> enable1 (sendByte ACK PORT1 keyed) = RECEIVE_MODE"
    and b: "receiveData zeros zeros dataLength PORT1 keyed = Some (r', out', w'')
         \<longrightarrow> settled keyed w''"
    by simp_all
  from direction_discipline [of PORT1 Port1 zeros 3 garbled ACK zeros "load [5] zeros" 1 r w'] s
  have c: "settled garbled w'" by simp
  from sv k a b c s rc show ?thesis by blast
qed


section \<open>Buffer bounds\<close>

text \<open>
  Claim C9. No write of \<^verbatim>\<open>readBuffer\<close> is to land at index \<open>maxDataLength\<close>. With capacity 5
  and six bytes arriving, the last two of them END, the call returns count 6 and cell 5 of the
  buffer, which held 0, holds END.
\<close>

theorem readBuffer_writes_past_capacity:
  "map_option fst
     (readBuffer zeros 5 PORT1 (idle\<lparr>rx1 := incoming [START, 5, NOT 5, 0, END, END]\<rparr>))
     = Some 6
   \<and> map_option ((\<lambda>b. b 5) \<circ> fst \<circ> snd)
     (readBuffer zeros 5 PORT1 (idle\<lparr>rx1 := incoming [START, 5, NOT 5, 0, END, END]\<rparr>))
     = Some END
   \<and> zeros 5 \<noteq> END"
  by (simp add: run_simps)


section \<open>The entry poll\<close>

text \<open>
  Claim C10. \<^verbatim>\<open>checkPortHasData\<close> is to return false when the port has no byte and for a port
  number other than 1 and 2. On both paths the function ends without a return statement.
\<close>

theorem checkPortHasData_no_return:
  "fst (checkPortHasData PORT1 idle) = None \<and> fst (checkPortHasData 3 idle) = None"
  by (simp add: run_simps)


end
